theory Spec2Isabelle
  imports Main
begin

section \<open>The outbound API call governor of \<open>services/geminiService.ts\<close>\<close>

subsection \<open>Thrown values and their rendered text\<close>

text \<open>
  A JavaScript \<open>catch (error: any)\<close> can receive any value. The model keeps the values
  that decide how \<open>error.toString()\<close> behaves: \<open>undefined\<close> and \<open>null\<close> (reading
  \<open>toString\<close> of them raises a \<open>TypeError\<close>), a thrown string, and an \<open>Error\<close>
  object with its identity, its \<open>name\<close> and its \<open>message\<close>.
\<close>

datatype jsval =
    Undefined
  | Null
  | Str string
  | ErrorObj nat string string

text \<open>
  \<open>error.toString()\<close>: \<open>None\<close> stands for the \<open>TypeError\<close> raised on \<open>undefined\<close>
  and \<open>null\<close>; a string renders as itself; an \<open>Error\<close> object renders as
  \<open>Error.prototype.toString\<close> prescribes (the name alone, the message alone, or
  \<open>name: message\<close>).
\<close>

fun toString :: "jsval \<Rightarrow> string option" where
  "toString Undefined = None"
| "toString Null = None"
| "toString (Str s) = Some s"
| "toString (ErrorObj _ name msg) =
     Some (if name = [] then msg else if msg = [] then name else name @ '': '' @ msg)"

text \<open>
  \<open>String.prototype.toLowerCase\<close> on the ASCII letters; every other character is kept.
  Strings are byte strings (UTF-8), so a character outside ASCII is a run of bytes above
  127 and none of them is touched. JavaScript also lower-cases letters outside ASCII;
  that is left out, since it cannot take part in an occurrence of one of the three
  triggers below: the only ASCII letters it yields are \<open>k\<close> (from the Kelvin sign), which
  is in no trigger, and \<open>i\<close> followed by a combining dot (from the dotted capital I),
  while the one \<open>i\<close> in the triggers is followed by \<open>l\<close>.
\<close>

definition toLowerCase_char :: "char \<Rightarrow> char" where
  "toLowerCase_char c =
     (case map_of (zip ''ABCDEFGHIJKLMNOPQRSTUVWXYZ'' ''abcdefghijklmnopqrstuvwxyz'') c of
        None \<Rightarrow> c
      | Some l \<Rightarrow> l)"

definition toLowerCase :: "string \<Rightarrow> string" where
  "toLowerCase s = map toLowerCase_char s"

text \<open>\<open>s.includes(t)\<close>: \<open>t\<close> occurs in \<open>s\<close> as a contiguous substring.\<close>

fun includes_str :: "string \<Rightarrow> string \<Rightarrow> bool" where
  "includes_str [] t = (t = [])"
| "includes_str (c # s) t = (take (length t) (c # s) = t \<or> includes_str s t)"

text \<open>
  The test of lines 31 to 33 of \<open>withRetry\<close>, on the rendered text of the caught value.
\<close>

definition isRetriable :: "string \<Rightarrow> bool" where
  "isRetriable text =
     (let errorMessage = toLowerCase text
      in includes_str errorMessage ''503'' \<or> includes_str errorMessage ''unavailable''
         \<or> includes_str errorMessage ''overloaded'')"

subsection \<open>The retry loop\<close>

text \<open>
  What an observer of one \<open>withRetry\<close> call sees, in order: an invocation of the task
  body, the warning logged before a backoff sleep (wait time, attempt number, attempt
  budget), the sleep itself (the argument of \<open>setTimeout\<close>, in milliseconds), and the
  error logged when the budget is used up.
\<close>

datatype event =
    Invoke
  | Warn int int int
  | Sleep int
  | LogError

text \<open>
  What \<open>withRetry\<close> raises: a value it caught (or its own \<open>lastError\<close>), or the
  \<open>TypeError\<close> of \<open>error.toString()\<close> on \<open>undefined\<close> or \<open>null\<close>, which leaves
  the \<open>catch\<close> block at once.
\<close>

datatype raised =
    Thrown jsval
  | ToStringTypeError

text \<open>
  The task body \<open>fn\<close> is an effectful call that settles: it takes the state of the world
  and gives the value it resolves with (\<open>Inr\<close>) or the value it rejects with (\<open>Inl\<close>),
  and the new state. \<open>retries\<close> and \<open>delay\<close> are integers, as at every call site.
  The loop is \<open>for (let i = 0; i < retries; i++)\<close> with \<open>lastError\<close> as a loop variable.
\<close>

function withRetry_loop ::
  "('s \<Rightarrow> (jsval + 'a) \<times> 's) \<Rightarrow> int \<Rightarrow> int \<Rightarrow> nat \<Rightarrow> jsval \<Rightarrow> 's \<Rightarrow> event list
     \<Rightarrow> (raised + 'a) \<times> 's \<times> event list" where
  "withRetry_loop fn retries delay i lastError s tr =
     (if int i < retries then
        (case fn s of
           (Inr v, s') \<Rightarrow> (Inr v, s', tr @ [Invoke])
         | (Inl error, s') \<Rightarrow>
             (case toString error of
                None \<Rightarrow> (Inl ToStringTypeError, s', tr @ [Invoke])
              | Some text \<Rightarrow>
                  if isRetriable text then
                    if int i < retries - 1 then
                      let waitTime = delay * 2 ^ i
                      in withRetry_loop fn retries delay (Suc i) error s'
                           (tr @ [Invoke, Warn waitTime (int i + 1) retries, Sleep waitTime])
                    else withRetry_loop fn retries delay (Suc i) error s' (tr @ [Invoke])
                  else (Inl (Thrown error), s', tr @ [Invoke])))
      else (Inl (Thrown lastError), s, tr @ [LogError]))"
  by pat_completeness auto
termination
  by (relation "measure (\<lambda>(fn, retries, delay, i, lastError, s, tr). nat (retries - int i))") auto

text \<open>
  \<open>withRetry(fn, retries = 5, delay = 1000)\<close>: an omitted argument is \<open>None\<close> and takes
  its default.
\<close>

definition withRetry ::
  "('s \<Rightarrow> (jsval + 'a) \<times> 's) \<Rightarrow> int option \<Rightarrow> int option \<Rightarrow> 's
     \<Rightarrow> (raised + 'a) \<times> 's \<times> event list" where
  "withRetry fn retries delay s =
     withRetry_loop fn (case retries of None \<Rightarrow> 5 | Some r \<Rightarrow> r)
       (case delay of None \<Rightarrow> 1000 | Some d \<Rightarrow> d) 0 Undefined s []"

subsection \<open>Describing a run\<close>

text \<open>
  \<open>after_calls fn k s\<close> is the state of the world after \<open>k\<close> invocations of the task
  body from \<open>s\<close>, and \<open>outcome fn k s\<close> is how invocation \<open>k\<close> (counted from 0)
  settles. \<open>transient_failure\<close> says that an outcome is a rejection that line 33 takes
  for a retriable one.
\<close>

fun after_calls :: "('s \<Rightarrow> (jsval + 'a) \<times> 's) \<Rightarrow> nat \<Rightarrow> 's \<Rightarrow> 's" where
  "after_calls fn 0 s = s"
| "after_calls fn (Suc k) s = after_calls fn k (snd (fn s))"

definition outcome :: "('s \<Rightarrow> (jsval + 'a) \<times> 's) \<Rightarrow> nat \<Rightarrow> 's \<Rightarrow> jsval + 'a" where
  "outcome fn k s = fst (fn (after_calls fn k s))"

fun transient_failure :: "jsval + 'a \<Rightarrow> bool" where
  "transient_failure (Inl e) = (case toString e of None \<Rightarrow> False | Some text \<Rightarrow> isRetriable text)"
| "transient_failure (Inr v) = False"

definition attempt_events :: "int \<Rightarrow> int \<Rightarrow> nat \<Rightarrow> event list" where
  "attempt_events retries delay j =
     [Invoke, Warn (delay * 2 ^ j) (int j + 1) retries, Sleep (delay * 2 ^ j)]"

definition backoff :: "int \<Rightarrow> int \<Rightarrow> nat \<Rightarrow> nat \<Rightarrow> event list" where
  "backoff retries delay i k = concat (map (attempt_events retries delay) [i..<i + k])"

text \<open>The backoff sleeps of a trace, in order.\<close>

fun sleeps :: "event list \<Rightarrow> int list" where
  "sleeps [] = []"
| "sleeps (Sleep w # tr) = w # sleeps tr"
| "sleeps (_ # tr) = sleeps tr"

text \<open>
  The spec's "contains, case-insensitively", stated on character codes and without the
  lower-casing of the code. An upper-case letter has a code from 65 (\<open>A\<close>) to 90
  (\<open>Z\<close>), and its lower-case form has that code plus 32. Two characters are the same up
  to case when they are equal or one is an upper-case letter and the other its lower-case
  form. A text contains a trigger case-insensitively when some contiguous piece of it
  matches the trigger character by character in that sense.
\<close>

definition is_upper :: "char \<Rightarrow> bool" where
  "is_upper c \<longleftrightarrow> 65 \<le> (of_char c :: nat) \<and> (of_char c :: nat) \<le> 90"

definition same_up_to_case :: "char \<Rightarrow> char \<Rightarrow> bool" where
  "same_up_to_case a b \<longleftrightarrow>
     a = b
     \<or> (is_upper a \<and> (of_char b :: nat) = of_char a + 32)
     \<or> (is_upper b \<and> (of_char a :: nat) = of_char b + 32)"

definition contains_ignoring_case :: "string \<Rightarrow> string \<Rightarrow> bool" where
  "contains_ignoring_case text t =
     (\<exists>ps u ss. text = ps @ u @ ss \<and> list_all2 same_up_to_case u t)"

subsection \<open>Task bodies used as examples\<close>

text \<open>
  The state of the world is the number of calls made so far, and each rejection is a
  fresh \<open>Error\<close> object. \<open>always_503\<close> is an overloaded upstream, \<open>invalid_key\<close> a
  permanent failure, \<open>flaky\<close> fails twice with a 503 and then resolves, and
  \<open>service_down\<close> reports the outage in capitals and without a status code.
\<close>

definition always_503 :: "nat \<Rightarrow> (jsval + string) \<times> nat" where
  "always_503 n = (Inl (ErrorObj n ''ApiError'' ''503 Service Unavailable''), Suc n)"

definition invalid_key :: "nat \<Rightarrow> (jsval + string) \<times> nat" where
  "invalid_key n = (Inl (ErrorObj n ''Error'' ''invalid api key''), Suc n)"

definition service_down :: "nat \<Rightarrow> (jsval + string) \<times> nat" where
  "service_down n = (Inl (ErrorObj n ''ApiError'' ''Service UNAVAILABLE''), Suc n)"

definition flaky :: "nat \<Rightarrow> (jsval + string) \<times> nat" where
  "flaky n =
     (if n < 2 then Inl (ErrorObj n ''Error'' ''got status: 503'') else Inr ''diary text'', Suc n)"

section \<open>The admission queue behind \<open>enqueue\<close>\<close>

text \<open>
  \<open>geminiService.ts\<close> imports \<open>enqueue\<close> from \<open>./apiQueue\<close>; that module is not
  among the sources at hand, so the queue is modelled from its specification. A task is
  known by its position in submission order. The environment decides when a running task
  finishes and how: a run of the governor is a list of events, a submission or the
  completion of a running task with its outcome. Time (the inter-request delay before an
  admitted task starts) is not part of the model. \<open>MaxConcurrent\<close> is a parameter; the
  README gives it as 2.
\<close>

text \<open>
  Modelled from the spec: the state of the admission queue of \<open>apiQueue.ts\<close>, "an ordered
  list of pending requests and an active-slot counter". \<open>running\<close>, \<open>admitted\<close>,
  \<open>submitted\<close> and \<open>settled\<close> record the history: the tasks admitted and not yet
  finished, all admissions in order, the number of submissions, and the outcomes delivered
  in order.
\<close>

record 'o governor =
  pending :: "nat list"
  activeCount :: int
  running :: "nat list"
  admitted :: "nat list"
  submitted :: nat
  settled :: "(nat \<times> 'o) list"

text \<open>
  Modelled from the spec: the queue of \<open>apiQueue.ts\<close> before any submission.
\<close>

definition idle :: "'o governor" where
  "idle = \<lparr>pending = [], activeCount = 0, running = [], admitted = [], submitted = 0, settled = []\<rparr>"

text \<open>
  Modelled from the spec: admission in \<open>apiQueue.ts\<close>, "increment counter, optionally wait
  InterRequestDelay, then run".
\<close>

definition admit :: "nat \<Rightarrow> 'o governor \<Rightarrow> 'o governor" where
  "admit t g =
     g\<lparr>activeCount := activeCount g + 1, running := running g @ [t], admitted := admitted g @ [t]\<rparr>"

text \<open>
  Modelled from the spec: \<open>submit\<close>, which is \<open>enqueue\<close> of \<open>apiQueue.ts\<close>, "if active
  count < MaxConcurrent, admit immediately; else append to the pending list". The new task
  is number \<open>submitted g\<close>.
\<close>

definition submit :: "int \<Rightarrow> 'o governor \<Rightarrow> 'o governor" where
  "submit MaxConcurrent g =
     (let t = submitted g; g' = g\<lparr>submitted := Suc t\<rparr>
      in if activeCount g < MaxConcurrent then admit t g'
         else g'\<lparr>pending := pending g @ [t]\<rparr>)"

text \<open>
  Modelled from the spec: what \<open>apiQueue.ts\<close> does when a running task finishes, "on
  completion of any task (success or failure), decrement the counter, then, if the pending
  list is non-empty, pop the head (oldest) and admit it". The outcome is delivered to the
  caller and plays no other part.
\<close>

definition complete :: "nat \<Rightarrow> 'o \<Rightarrow> 'o governor \<Rightarrow> 'o governor" where
  "complete t out g =
     (let g' = g\<lparr>activeCount := activeCount g - 1, running := remove1 t (running g),
                  settled := settled g @ [(t, out)]\<rparr>
      in case pending g' of
           [] \<Rightarrow> g'
         | h # rest \<Rightarrow> admit h (g'\<lparr>pending := rest\<rparr>))"

text \<open>
  Modelled from the spec: the events the queue of \<open>apiQueue.ts\<close> reacts to, a submission
  or the completion of task \<open>t\<close> with its outcome.
\<close>

datatype 'o qevent =
    Submit
  | Complete nat 'o

text \<open>
  Modelled from the spec: one reaction of the queue of \<open>apiQueue.ts\<close>. Only a running task
  can finish; any other completion is not a step of the system (\<open>None\<close>).
\<close>

fun step :: "int \<Rightarrow> 'o qevent \<Rightarrow> 'o governor \<Rightarrow> 'o governor option" where
  "step MaxConcurrent Submit g = Some (submit MaxConcurrent g)"
| "step MaxConcurrent (Complete t out) g =
     (if t \<in> set (running g) then Some (complete t out g) else None)"

text \<open>
  Modelled from the spec: a run of the queue of \<open>apiQueue.ts\<close>, event after event.
\<close>

fun run :: "int \<Rightarrow> 'o qevent list \<Rightarrow> 'o governor \<Rightarrow> 'o governor option" where
  "run MaxConcurrent [] g = Some g"
| "run MaxConcurrent (ev # evs) g =
     (case step MaxConcurrent ev g of
        None \<Rightarrow> None
      | Some g' \<Rightarrow> run MaxConcurrent evs g')"

text \<open>
  Modelled from the spec: two runs of the queue of \<open>apiQueue.ts\<close> "differing only in
  whether one submitted task fails or succeeds": the same events, with the outcome of task
  \<open>k\<close> replaced.
\<close>

fun with_outcome :: "nat \<Rightarrow> 'o \<Rightarrow> 'o qevent \<Rightarrow> 'o qevent" where
  "with_outcome k out' Submit = Submit"
| "with_outcome k out' (Complete t out) = Complete t (if t = k then out' else out)"

text \<open>
  Modelled from the spec: the consistency of a state of the queue of \<open>apiQueue.ts\<close>. The
  counter counts the running tasks, requests wait only when all slots are taken, the
  counter stays within \<open>MaxConcurrent\<close>, admissions followed by the waiting requests are
  the submissions in order, and every admitted task is running or has settled.
\<close>

definition governor_inv :: "int \<Rightarrow> 'o governor \<Rightarrow> bool" where
  "governor_inv MaxConcurrent g \<longleftrightarrow>
     activeCount g = int (length (running g))
     \<and> (pending g \<noteq> [] \<longrightarrow> MaxConcurrent \<le> activeCount g)
     \<and> (0 \<le> MaxConcurrent \<longrightarrow> activeCount g \<le> MaxConcurrent)
     \<and> admitted g @ pending g = [0..<submitted g]
     \<and> length (admitted g) = length (running g) + length (settled g)"

text \<open>
  Modelled from the spec: a state of the queue of \<open>apiQueue.ts\<close> with the outcome
  delivered for task \<open>k\<close> replaced by \<open>out'\<close>.
\<close>

definition relabel :: "nat \<Rightarrow> 'o \<Rightarrow> 'o governor \<Rightarrow> 'o governor" where
  "relabel k out' g = g\<lparr>settled := map (\<lambda>(t, out). (t, if t = k then out' else out)) (settled g)\<rparr>"

section \<open>The five exported operations\<close>

text \<open>
  Lines 1 to 164 of \<open>services/geminiService.ts\<close> are modelled. What follows the
  separator in that file is a variant of the same five functions that calls the client
  directly, without \<open>enqueue\<close> and \<open>withRetry\<close>; it is not part of the model.
\<close>

text \<open>
  The world a task body runs in: the module variable \<open>ai\<close> (the lazily built client,
  known by the key it was built with), \<open>process.env.API_KEY\<close>, the number of \<open>Error\<close>
  objects this module has created so far (the identity of the next one), and the state of
  the remote service.
\<close>

record 'w world =
  ai :: "string option"
  API_KEY :: "string option"
  allocated :: nat
  service :: 'w

text \<open>\<open>throw new Error(msg)\<close>: a fresh \<open>Error\<close> object.\<close>

definition throw_new_Error :: "string \<Rightarrow> 'w world \<Rightarrow> (jsval + 'a) \<times> 'w world" where
  "throw_new_Error msg w =
     (Inl (ErrorObj (allocated w) ''Error'' msg), w\<lparr>allocated := Suc (allocated w)\<rparr>)"

text \<open>
  \<open>getAi()\<close>: builds the client on first use; a missing or empty \<open>API_KEY\<close> is falsy.
\<close>

definition getAi :: "'w world \<Rightarrow> (jsval + string) \<times> 'w world" where
  "getAi w =
     (case ai w of
        Some client \<Rightarrow> (Inr client, w)
      | None \<Rightarrow>
          (case API_KEY w of
             None \<Rightarrow> throw_new_Error ''API_KEY environment variable not set'' w
           | Some key \<Rightarrow>
               if key = [] then throw_new_Error ''API_KEY environment variable not set'' w
               else (Inr key, w\<lparr>ai := Some key\<rparr>)))"

text \<open>
  The requests sent to the \<open>@google/genai\<close> client. The prompt texts are template
  literals in Korean; they are parameters of the operations below, as is the client
  itself: \<open>generateContent\<close> and \<open>generateImages\<close> take the client's key and the request
  and act on the state of the service, resolving or rejecting. Where an operation reads
  only \<open>response.text\<close>, the response is that text; for \<open>generateImages\<close> it is the
  list of the \<open>imageBytes\<close> of \<open>response.generatedImages\<close>.
\<close>

datatype content_config =
    NoConfig
  | GoogleMapsTool
  | JsonSummarySchema

record content_request =
  model :: string
  contents :: string
  config :: content_config

record images_request =
  images_model :: string
  prompt :: string
  numberOfImages :: nat
  aspectRatio :: string

text \<open>\<open>await\<close> of a call to the client: it acts on the service and on nothing else.\<close>

definition await_call :: "('w \<Rightarrow> (jsval + 'r) \<times> 'w) \<Rightarrow> 'w world \<Rightarrow> (jsval + 'r) \<times> 'w world" where
  "await_call f w = (case f (service w) of (r, sv) \<Rightarrow> (r, w\<lparr>service := sv\<rparr>))"

text \<open>
  The task bodies: the \<open>async\<close> arrow functions handed to \<open>withRetry\<close>, one per
  operation. What \<open>searchPlaces\<close> makes of the grounding chunks and what \<open>JSON.parse\<close>
  makes of the summary text are parameters (\<open>places\<close>, \<open>parse\<close>); both may throw.
\<close>

definition searchPlaces_body ::
  "(string \<Rightarrow> content_request \<Rightarrow> 'w \<Rightarrow> (jsval + 'r) \<times> 'w) \<Rightarrow> (string \<Rightarrow> string)
     \<Rightarrow> ('r \<Rightarrow> jsval + 'a) \<Rightarrow> string \<Rightarrow> 'w world \<Rightarrow> (jsval + 'a) \<times> 'w world" where
  "searchPlaces_body generateContent search_prompt places query w =
     (case getAi w of
        (Inl e, w1) \<Rightarrow> (Inl e, w1)
      | (Inr client, w1) \<Rightarrow>
          (case await_call (generateContent client
                  \<lparr>model = ''gemini-2.5-pro'', contents = search_prompt query,
                   config = GoogleMapsTool\<rparr>) w1 of
             (Inl e, w2) \<Rightarrow> (Inl e, w2)
           | (Inr response, w2) \<Rightarrow> (places response, w2)))"

definition generateDiaryEntry_body ::
  "(string \<Rightarrow> content_request \<Rightarrow> 'w \<Rightarrow> (jsval + string) \<times> 'w)
     \<Rightarrow> (string \<Rightarrow> string \<Rightarrow> string) \<Rightarrow> (string \<Rightarrow> string)
     \<Rightarrow> string \<Rightarrow> string option \<Rightarrow> 'w world \<Rightarrow> (jsval + string) \<times> 'w world" where
  "generateDiaryEntry_body generateContent prompt_with_place prompt_without_place
       transcription placeName w =
     (case getAi w of
        (Inl e, w1) \<Rightarrow> (Inl e, w1)
      | (Inr client, w1) \<Rightarrow>
          (let diary_prompt =
                 (case placeName of
                    None \<Rightarrow> prompt_without_place transcription
                  | Some p \<Rightarrow>
                      if p = [] then prompt_without_place transcription
                      else prompt_with_place p transcription)
           in case await_call (generateContent client
                  \<lparr>model = ''gemini-2.5-pro'', contents = diary_prompt, config = NoConfig\<rparr>) w1 of
                (Inl e, w2) \<Rightarrow> (Inl e, w2)
              | (Inr text, w2) \<Rightarrow> (Inr text, w2)))"

definition createImagePrompt_body ::
  "(string \<Rightarrow> content_request \<Rightarrow> 'w \<Rightarrow> (jsval + string) \<times> 'w) \<Rightarrow> (string \<Rightarrow> string)
     \<Rightarrow> string \<Rightarrow> 'w world \<Rightarrow> (jsval + string) \<times> 'w world" where
  "createImagePrompt_body generateContent image_prompt transcription w =
     (case getAi w of
        (Inl e, w1) \<Rightarrow> (Inl e, w1)
      | (Inr client, w1) \<Rightarrow>
          (case await_call (generateContent client
                  \<lparr>model = ''gemini-2.5-flash'', contents = image_prompt transcription,
                   config = NoConfig\<rparr>) w1 of
             (Inl e, w2) \<Rightarrow> (Inl e, w2)
           | (Inr text, w2) \<Rightarrow> (Inr text, w2)))"

definition generateSketch_body ::
  "(string \<Rightarrow> images_request \<Rightarrow> 'w \<Rightarrow> (jsval + string list) \<times> 'w)
     \<Rightarrow> string \<Rightarrow> 'w world \<Rightarrow> (jsval + string) \<times> 'w world" where
  "generateSketch_body generateImages sketch_prompt w =
     (case getAi w of
        (Inl e, w1) \<Rightarrow> (Inl e, w1)
      | (Inr client, w1) \<Rightarrow>
          (case await_call (generateImages client
                  \<lparr>images_model = ''imagen-4.0-generate-001'', prompt = sketch_prompt,
                   numberOfImages = 1, aspectRatio = ''16:9''\<rparr>) w1 of
             (Inl e, w2) \<Rightarrow> (Inl e, w2)
           | (Inr generatedImages, w2) \<Rightarrow>
               (case generatedImages of
                  [] \<Rightarrow> throw_new_Error ''Image generation failed, no images returned.'' w2
                | imageBytes # _ \<Rightarrow> (Inr imageBytes, w2))))"

definition summarizeDay_body ::
  "(string \<Rightarrow> content_request \<Rightarrow> 'w \<Rightarrow> (jsval + string) \<times> 'w) \<Rightarrow> ('d list \<Rightarrow> string)
     \<Rightarrow> (string \<Rightarrow> jsval + 'a) \<Rightarrow> 'd list \<Rightarrow> 'w world \<Rightarrow> (jsval + 'a) \<times> 'w world" where
  "summarizeDay_body generateContent summary_prompt parse entries w =
     (case getAi w of
        (Inl e, w1) \<Rightarrow> (Inl e, w1)
      | (Inr client, w1) \<Rightarrow>
          (case await_call (generateContent client
                  \<lparr>model = ''gemini-2.5-pro'', contents = summary_prompt entries,
                   config = JsonSummarySchema\<rparr>) w1 of
             (Inl e, w2) \<Rightarrow> (Inl e, w2)
           | (Inr text, w2) \<Rightarrow> (parse text, w2)))"

text \<open>
  The exported operations. \<open>enqueue\<close> is the import from \<open>./apiQueue\<close>, a parameter
  here: it receives the task and gives the promise the operation returns. Each operation
  calls \<open>withRetry\<close> with the task body alone, so with both defaults.
\<close>

type_synonym ('w, 'a) task = "'w world \<Rightarrow> (raised + 'a) \<times> 'w world \<times> event list"

type_synonym ('w, 'r) content_api = "string \<Rightarrow> content_request \<Rightarrow> 'w \<Rightarrow> (jsval + 'r) \<times> 'w"

type_synonym 'w images_api = "string \<Rightarrow> images_request \<Rightarrow> 'w \<Rightarrow> (jsval + string list) \<times> 'w"

definition searchPlaces ::
  "(('w, 'a) task \<Rightarrow> 'p) \<Rightarrow> ('w, 'r) content_api \<Rightarrow> (string \<Rightarrow> string) \<Rightarrow> ('r \<Rightarrow> jsval + 'a)
     \<Rightarrow> string \<Rightarrow> 'p" where
  "searchPlaces enqueue generateContent search_prompt places query =
     enqueue (withRetry (searchPlaces_body generateContent search_prompt places query) None None)"

definition generateDiaryEntry ::
  "(('w, string) task \<Rightarrow> 'p) \<Rightarrow> ('w, string) content_api \<Rightarrow> (string \<Rightarrow> string \<Rightarrow> string)
     \<Rightarrow> (string \<Rightarrow> string) \<Rightarrow> string \<Rightarrow> string option \<Rightarrow> 'p" where
  "generateDiaryEntry enqueue generateContent prompt_with_place prompt_without_place
       transcription placeName =
     enqueue (withRetry (generateDiaryEntry_body generateContent prompt_with_place
                prompt_without_place transcription placeName) None None)"

definition createImagePrompt ::
  "(('w, string) task \<Rightarrow> 'p) \<Rightarrow> ('w, string) content_api \<Rightarrow> (string \<Rightarrow> string) \<Rightarrow> string \<Rightarrow> 'p" where
  "createImagePrompt enqueue generateContent image_prompt transcription =
     enqueue (withRetry (createImagePrompt_body generateContent image_prompt transcription)
                None None)"

definition generateSketch ::
  "(('w, string) task \<Rightarrow> 'p) \<Rightarrow> 'w images_api \<Rightarrow> string \<Rightarrow> 'p" where
  "generateSketch enqueue generateImages sketch_prompt =
     enqueue (withRetry (generateSketch_body generateImages sketch_prompt) None None)"

definition summarizeDay ::
  "(('w, 'a) task \<Rightarrow> 'p) \<Rightarrow> ('w, string) content_api \<Rightarrow> ('d list \<Rightarrow> string) \<Rightarrow> (string \<Rightarrow> jsval + 'a)
     \<Rightarrow> 'd list \<Rightarrow> 'p" where
  "summarizeDay enqueue generateContent summary_prompt parse entries =
     enqueue (withRetry (summarizeDay_body generateContent summary_prompt parse entries)
                None None)"

text \<open>
  An overloaded image service, as an example: every request is rejected with a fresh
  error that reports a 503; the state of the service is the number of requests it has
  received. \<open>ready\<close>
  is a world with a key configured and no client built yet.
\<close>

definition overloaded_images ::
  "string \<Rightarrow> images_request \<Rightarrow> nat \<Rightarrow> (jsval + string list) \<times> nat" where
  "overloaded_images client req n =
     (Inl (ErrorObj n ''ApiError'' ''got status: 503 UNAVAILABLE. The model is overloaded.''),
      Suc n)"

definition ready :: "nat world" where
  "ready = \<lparr>ai = None, API_KEY = Some ''key'', allocated = 0, service = 0\<rparr>"

section \<open>Properties of the retry loop\<close>

declare withRetry_loop.simps [simp del]

subsection \<open>One pass through the loop body\<close>

lemma after_calls_Suc: "after_calls fn (Suc k) s = snd (fn (after_calls fn k s))"
  by (induction k arbitrary: s) simp_all

lemma outcome_0: "outcome fn 0 s = fst (fn s)"
  by (simp add: outcome_def)

lemma outcome_Suc: "outcome fn (Suc k) s = outcome fn k (snd (fn s))"
  by (simp add: outcome_def)

lemma backoff_0: "backoff retries delay i 0 = []"
  by (simp add: backoff_def)

lemma backoff_Suc:
  "backoff retries delay i (Suc k) = attempt_events retries delay i @ backoff retries delay (Suc i) k"
proof -
  have "[i..<i + Suc k] = i # [Suc i..<Suc i + k]"
    using upt_conv_Cons[of i "i + Suc k"] by simp
  then show ?thesis
    unfolding backoff_def by simp
qed

lemma loop_exhausted:
  "\<not> int i < retries \<Longrightarrow>
   withRetry_loop fn retries delay i lastError s tr = (Inl (Thrown lastError), s, tr @ [LogError])"
  by (simp add: withRetry_loop.simps)

lemma loop_success:
  "int i < retries \<Longrightarrow> fn s = (Inr v, s') \<Longrightarrow>
   withRetry_loop fn retries delay i lastError s tr = (Inr v, s', tr @ [Invoke])"
  by (subst withRetry_loop.simps) simp

lemma loop_type_error:
  "int i < retries \<Longrightarrow> fn s = (Inl e, s') \<Longrightarrow> toString e = None \<Longrightarrow>
   withRetry_loop fn retries delay i lastError s tr = (Inl ToStringTypeError, s', tr @ [Invoke])"
  by (subst withRetry_loop.simps) simp

lemma loop_terminal:
  "int i < retries \<Longrightarrow> fn s = (Inl e, s') \<Longrightarrow> toString e = Some str \<Longrightarrow> \<not> isRetriable str \<Longrightarrow>
   withRetry_loop fn retries delay i lastError s tr = (Inl (Thrown e), s', tr @ [Invoke])"
  by (subst withRetry_loop.simps) simp

lemma loop_backoff:
  "int i < retries - 1 \<Longrightarrow> fn s = (Inl e, s') \<Longrightarrow> toString e = Some str \<Longrightarrow> isRetriable str \<Longrightarrow>
   withRetry_loop fn retries delay i lastError s tr =
     withRetry_loop fn retries delay (Suc i) e s' (tr @ attempt_events retries delay i)"
  by (subst withRetry_loop.simps) (simp add: attempt_events_def Let_def)

lemma loop_last_transient:
  "int i = retries - 1 \<Longrightarrow> fn s = (Inl e, s') \<Longrightarrow> toString e = Some str \<Longrightarrow> isRetriable str \<Longrightarrow>
   withRetry_loop fn retries delay i lastError s tr = (Inl (Thrown e), s', tr @ [Invoke, LogError])"
  by (subst withRetry_loop.simps) (simp add: loop_exhausted)

lemma transient_failureE:
  assumes "transient_failure r"
  obtains e str where "r = Inl e" "toString e = Some str" "isRetriable str"
  using assms by (cases r) (auto split: option.splits)

lemma loop_skip:
  assumes "\<forall>j<k. transient_failure (outcome fn j s)" and "int (i + k) \<le> retries - 1"
  shows "withRetry_loop fn retries delay i lastError s tr =
         withRetry_loop fn retries delay (i + k)
           (if k = 0 then lastError else projl (outcome fn (k - 1) s))
           (after_calls fn k s) (tr @ backoff retries delay i k)"
  using assms
proof (induction k arbitrary: i lastError s tr)
  case 0
  then show ?case by (simp add: backoff_0)
next
  case (Suc k)
  from Suc.prems(1) have "transient_failure (outcome fn 0 s)" by blast
  then obtain e str where e: "fst (fn s) = Inl e" "toString e = Some str" "isRetriable str"
    by (auto simp: outcome_0 elim: transient_failureE)
  then have fn: "fn s = (Inl e, snd (fn s))" by (metis prod.collapse)
  have rest: "\<forall>j<k. transient_failure (outcome fn j (snd (fn s)))"
    using Suc.prems(1) by (auto simp: outcome_Suc[symmetric])
  have "withRetry_loop fn retries delay i lastError s tr =
        withRetry_loop fn retries delay (Suc i) e (snd (fn s)) (tr @ attempt_events retries delay i)"
    using Suc.prems(2) e fn by (intro loop_backoff[where s = s and s' = "snd (fn s)" and str = str]) auto
  also have "\<dots> = withRetry_loop fn retries delay (Suc i + k)
           (if k = 0 then e else projl (outcome fn (k - 1) (snd (fn s))))
           (after_calls fn k (snd (fn s)))
           ((tr @ attempt_events retries delay i) @ backoff retries delay (Suc i) k)"
    using Suc.prems(2) by (intro Suc.IH[OF rest]) simp
  also have "(if k = 0 then e else projl (outcome fn (k - 1) (snd (fn s)))) = projl (outcome fn k s)"
    using e(1) by (cases k) (simp_all add: outcome_0 outcome_Suc)
  finally show ?case by (simp add: backoff_Suc)
qed

subsection \<open>Whole runs\<close>

lemmas eval_simps = outcome_def isRetriable_def toLowerCase_def toLowerCase_char_def
  backoff_def attempt_events_def eval_nat_numeral All_less_Suc

lemma count_attempt_events: "count_list (attempt_events retries delay j) Invoke = 1"
  by (simp add: attempt_events_def)

lemma count_backoff: "count_list (backoff retries delay i k) Invoke = k"
  by (induction k arbitrary: i) (simp_all add: backoff_0 backoff_Suc count_attempt_events)

lemma fn_at: "outcome fn i s = r \<Longrightarrow> fn (after_calls fn i s) = (r, after_calls fn (Suc i) s)"
  by (simp add: outcome_def prod_eq_iff after_calls_Suc del: after_calls.simps)

lemma withRetry_Some:
  "withRetry fn (Some retries) (Some delay) s = withRetry_loop fn retries delay 0 Undefined s []"
  by (simp add: withRetry_def)

text \<open>
  A rejection with \<open>undefined\<close> or \<open>null\<close> has no rendered text: reading
  \<open>toString\<close> raises inside the \<open>catch\<close> block, and that \<open>TypeError\<close> is what the
  caller gets, after one invocation.
\<close>

lemma withRetry_rejected_without_text:
  assumes "0 < retries" and "fn s = (Inl e, s')" and "toString e = None"
  shows "withRetry fn (Some retries) (Some delay) s = (Inl ToStringTypeError, s', [Invoke])"
  using assms by (simp add: withRetry_Some loop_type_error[where fn = fn and s = s])

lemma withRetry_reach:
  assumes "\<forall>j<i. transient_failure (outcome fn j s)" and "int i < retries"
  shows "withRetry fn (Some retries) (Some delay) s =
         withRetry_loop fn retries delay i (if i = 0 then Undefined else projl (outcome fn (i - 1) s))
           (after_calls fn i s) (backoff retries delay 0 i)"
  using loop_skip[OF assms(1), of 0 retries delay Undefined "[]"] assms(2)
  by (simp add: withRetry_Some)

subsection \<open>The shape of every trace\<close>

lemma sleeps_append: "sleeps (xs @ ys) = sleeps xs @ sleeps ys"
  by (induction xs rule: sleeps.induct) simp_all

lemma sleeps_attempt_events: "sleeps (attempt_events retries delay j) = [delay * 2 ^ j]"
  by (simp add: attempt_events_def)

lemma loop_cases:
  obtains
    (exhausted) "\<not> int i < retries"
      "withRetry_loop fn retries delay i lastError s tr = (Inl (Thrown lastError), s, tr @ [LogError])"
  | (settled) r s' where "int i < retries"
      "withRetry_loop fn retries delay i lastError s tr = (r, s', tr @ [Invoke])"
  | (final) e s' where "int i = retries - 1"
      "withRetry_loop fn retries delay i lastError s tr = (Inl (Thrown e), s', tr @ [Invoke, LogError])"
  | (retry) e s' where "int i < retries - 1"
      "withRetry_loop fn retries delay i lastError s tr =
         withRetry_loop fn retries delay (Suc i) e s' (tr @ attempt_events retries delay i)"
proof (cases "int i < retries")
  case False
  then show ?thesis by (intro exhausted) (simp_all add: loop_exhausted)
next
  case True
  obtain r s' where fn: "fn s = (r, s')" by (cases "fn s")
  show ?thesis
  proof (cases r)
    case (Inr v)
    with True fn show ?thesis by (intro settled) (simp_all add: loop_success)
  next
    case (Inl e)
    show ?thesis
    proof (cases "toString e")
      case None
      with True fn Inl show ?thesis by (intro settled) (simp_all add: loop_type_error)
    next
      case (Some str)
      show ?thesis
      proof (cases "isRetriable str")
        case False
        with True fn Inl Some show ?thesis by (intro settled) (simp_all add: loop_terminal)
      next
        case retr: True
        show ?thesis
        proof (cases "int i < retries - 1")
          case True
          then show ?thesis
            using loop_backoff[where fn = fn and s = s, OF True fn[unfolded Inl] Some retr]
            by (intro retry)
        next
          case False
          with \<open>int i < retries\<close> have "int i = retries - 1" by simp
          then show ?thesis
            using loop_last_transient[where fn = fn and s = s, OF _ fn[unfolded Inl] Some retr]
            by (intro final)
        qed
      qed
    qed
  qed
qed

lemma loop_trace_extends:
  "\<exists>rest. snd (snd (withRetry_loop fn retries delay i lastError s tr)) = tr @ rest"
proof (induction "nat (retries - int i)" arbitrary: i lastError s tr)
  case 0
  then show ?case by (simp add: loop_exhausted)
next
  case (Suc n)
  show ?case
  proof (cases rule: loop_cases[of i retries fn delay lastError s tr])
    case (retry e s')
    have "\<exists>rest. snd (snd (withRetry_loop fn retries delay (Suc i) e s'
              (tr @ attempt_events retries delay i))) = (tr @ attempt_events retries delay i) @ rest"
      using Suc.hyps(2) by (intro Suc.hyps(1)) simp
    then show ?thesis by (auto simp: retry(2))
  qed simp_all
qed

lemma loop_starts_with_invocation:
  assumes "int i < retries"
  shows "\<exists>rest. snd (snd (withRetry_loop fn retries delay i lastError s tr)) = tr @ Invoke # rest"
proof (cases rule: loop_cases[of i retries fn delay lastError s tr])
  case (retry e s')
  then show ?thesis
    using loop_trace_extends[of fn retries delay "Suc i" e s' "tr @ attempt_events retries delay i"]
    by (auto simp: attempt_events_def)
qed (use assms in simp_all)

lemma loop_sleeps:
  assumes "count_list tr Invoke = i"
    and "sleeps tr = map (\<lambda>j. delay * 2 ^ j) [0..<(if int i < retries then i else i - 1)]"
  shows "sleeps (snd (snd (withRetry_loop fn retries delay i lastError s tr))) =
         map (\<lambda>j. delay * 2 ^ j)
           [0..<count_list (snd (snd (withRetry_loop fn retries delay i lastError s tr))) Invoke - 1]"
  using assms
proof (induction "nat (retries - int i)" arbitrary: i lastError s tr)
  case 0
  then show ?case by (simp add: loop_exhausted sleeps_append)
next
  case (Suc n)
  show ?case
  proof (cases rule: loop_cases[of i retries fn delay lastError s tr])
    case exhausted
    with Suc.prems show ?thesis by (simp add: sleeps_append)
  next
    case (settled r s')
    with Suc.prems show ?thesis by (simp add: sleeps_append)
  next
    case (final e s')
    with Suc.prems show ?thesis by (simp add: sleeps_append)
  next
    case (retry e s')
    let ?tr = "tr @ attempt_events retries delay i"
    have "sleeps (snd (snd (withRetry_loop fn retries delay (Suc i) e s' ?tr))) =
          map (\<lambda>j. delay * 2 ^ j)
            [0..<count_list (snd (snd (withRetry_loop fn retries delay (Suc i) e s' ?tr))) Invoke - 1]"
    proof (rule Suc.hyps(1))
      show "n = nat (retries - int (Suc i))" using Suc.hyps(2) by simp
      show "count_list ?tr Invoke = Suc i"
        using Suc.prems(1) by (simp add: attempt_events_def)
      show "sleeps ?tr = map (\<lambda>j. delay * 2 ^ j)
              [0..<(if int (Suc i) < retries then Suc i else Suc i - 1)]"
        using Suc.prems(2) retry(1) by (simp add: sleeps_append sleeps_attempt_events)
    qed
    then show ?thesis by (simp only: retry(2))
  qed
qed

subsection \<open>Substring search and lower-casing\<close>

lemma take_length_eq_iff: "take (length t) s = t \<longleftrightarrow> (\<exists>ss. s = t @ ss)"
proof
  assume "take (length t) s = t"
  then have "s = t @ drop (length t) s"
    by (metis append_take_drop_id)
  then show "\<exists>ss. s = t @ ss" ..
next
  assume "\<exists>ss. s = t @ ss"
  then show "take (length t) s = t" by auto
qed

lemma includes_str_iff: "includes_str s t \<longleftrightarrow> (\<exists>ps ss. s = ps @ t @ ss)"
proof (induction s)
  case Nil
  then show ?case by auto
next
  case (Cons c s)
  have "(\<exists>ps ss. c # s = ps @ t @ ss) \<longleftrightarrow> (\<exists>ss. c # s = t @ ss) \<or> (\<exists>ps ss. s = ps @ t @ ss)"
  proof
    assume "\<exists>ps ss. c # s = ps @ t @ ss"
    then obtain ps ss where eq: "c # s = ps @ t @ ss" by blast
    show "(\<exists>ss. c # s = t @ ss) \<or> (\<exists>ps ss. s = ps @ t @ ss)"
    proof (cases ps)
      case Nil
      with eq show ?thesis by auto
    next
      case (Cons p ps')
      with eq have "s = ps' @ t @ ss" by simp
      then show ?thesis by blast
    qed
  next
    assume "(\<exists>ss. c # s = t @ ss) \<or> (\<exists>ps ss. s = ps @ t @ ss)"
    then show "\<exists>ps ss. c # s = ps @ t @ ss"
    proof
      assume "\<exists>ss. c # s = t @ ss"
      then obtain ss where "c # s = [] @ t @ ss" by auto
      then show ?thesis by blast
    next
      assume "\<exists>ps ss. s = ps @ t @ ss"
      then obtain ps ss where "c # s = (c # ps) @ t @ ss" by auto
      then show ?thesis by blast
    qed
  qed
  then show ?case
    using Cons.IH by (simp only: includes_str.simps take_length_eq_iff)
qed

lemma map_eq_infix_iff:
  "(\<exists>ps ss. map f xs = ps @ t @ ss) \<longleftrightarrow> (\<exists>ps u ss. xs = ps @ u @ ss \<and> map f u = t)"
proof
  assume "\<exists>ps ss. map f xs = ps @ t @ ss"
  then obtain ps ss where "map f xs = ps @ (t @ ss)" by blast
  then obtain us vs where 1: "xs = us @ vs" "map f vs = t @ ss"
    by (metis map_eq_append_conv)
  from 1(2) obtain u ws where 2: "vs = u @ ws" "map f u = t"
    by (metis map_eq_append_conv)
  from 1(1) 2 show "\<exists>ps u ss. xs = ps @ u @ ss \<and> map f u = t" by blast
next
  assume "\<exists>ps u ss. xs = ps @ u @ ss \<and> map f u = t"
  then obtain ps u ss where "xs = ps @ u @ ss" "map f u = t" by blast
  then have "map f xs = map f ps @ t @ map f ss" by simp
  then show "\<exists>ps ss. map f xs = ps @ t @ ss" by blast
qed

text \<open>
  Lower-casing against character codes: the table of \<open>toLowerCase_char\<close> moves exactly
  the characters with a code from 65 to 90, each to the code 32 higher.
\<close>

lemma upper_in_alphabet:
  assumes "is_upper a"
  shows "a \<in> set ''ABCDEFGHIJKLMNOPQRSTUVWXYZ''"
proof -
  have "(of_char a :: nat) \<in> of_char ` set ''ABCDEFGHIJKLMNOPQRSTUVWXYZ''"
    using assms unfolding is_upper_def by simp arith
  then obtain c where "c \<in> set ''ABCDEFGHIJKLMNOPQRSTUVWXYZ''" "(of_char a :: nat) = of_char c"
    by blast
  then show ?thesis by simp
qed

lemma lower_of_upper:
  assumes "a \<in> set ''ABCDEFGHIJKLMNOPQRSTUVWXYZ''"
  shows "is_upper a \<and> (of_char (toLowerCase_char a) :: nat) = of_char a + 32"
  using assms by (auto simp: is_upper_def toLowerCase_char_def)

lemma lower_of_other:
  assumes "a \<notin> set ''ABCDEFGHIJKLMNOPQRSTUVWXYZ''"
  shows "toLowerCase_char a = a"
  using assms by (simp add: toLowerCase_char_def)

lemma same_up_to_case_lower:
  assumes "\<not> is_upper c"
  shows "same_up_to_case a c \<longleftrightarrow> toLowerCase_char a = c"
proof (cases "a \<in> set ''ABCDEFGHIJKLMNOPQRSTUVWXYZ''")
  case True
  then have up: "is_upper a" and code: "(of_char (toLowerCase_char a) :: nat) = of_char a + 32"
    using lower_of_upper by blast+
  from up assms have "a \<noteq> c" by blast
  then have "same_up_to_case a c \<longleftrightarrow> (of_char c :: nat) = of_char a + 32"
    using up assms by (simp add: same_up_to_case_def)
  also have "\<dots> \<longleftrightarrow> (of_char c :: nat) = of_char (toLowerCase_char a)"
    by (simp only: code)
  also have "\<dots> \<longleftrightarrow> toLowerCase_char a = c"
    by (simp only: of_char_eq_iff eq_commute)
  finally show ?thesis .
next
  case False
  then have "\<not> is_upper a" using upper_in_alphabet by blast
  with False assms show ?thesis
    by (simp add: same_up_to_case_def lower_of_other)
qed

lemma list_all2_same_up_to_case:
  assumes "\<forall>c\<in>set t. \<not> is_upper c"
  shows "list_all2 same_up_to_case u t \<longleftrightarrow> map toLowerCase_char u = t"
  using assms
proof (induction u arbitrary: t)
  case Nil
  then show ?case by auto
next
  case (Cons a u)
  then show ?case
    by (cases t) (simp_all add: same_up_to_case_lower)
qed

lemma includes_lower_iff:
  assumes "\<forall>c\<in>set t. \<not> is_upper c"
  shows "includes_str (toLowerCase str) t \<longleftrightarrow> contains_ignoring_case str t"
proof -
  have "includes_str (toLowerCase str) t \<longleftrightarrow>
        (\<exists>ps u ss. str = ps @ u @ ss \<and> map toLowerCase_char u = t)"
    unfolding includes_str_iff toLowerCase_def by (rule map_eq_infix_iff)
  also have "\<dots> \<longleftrightarrow> contains_ignoring_case str t"
    unfolding contains_ignoring_case_def by (simp only: list_all2_same_up_to_case[OF assms])
  finally show ?thesis .
qed

lemma triggers_lower_case:
  "\<forall>c\<in>set ''503''. \<not> is_upper c"
  "\<forall>c\<in>set ''unavailable''. \<not> is_upper c"
  "\<forall>c\<in>set ''overloaded''. \<not> is_upper c"
  by (simp_all add: is_upper_def)

text \<open>
  The spec-side notion at work on capitals, with no lower-casing involved: the piece
  \<open>UNAVAILABLE\<close> of the text matches the trigger character by character.
\<close>

lemma capitals_contain_unavailable:
  "contains_ignoring_case ''ApiError: Service UNAVAILABLE'' ''unavailable''"
proof -
  have "''ApiError: Service UNAVAILABLE'' = ''ApiError: Service '' @ ''UNAVAILABLE'' @ []"
    by simp
  moreover have "list_all2 same_up_to_case ''UNAVAILABLE'' ''unavailable''"
    by (simp add: same_up_to_case_def is_upper_def)
  ultimately show ?thesis
    unfolding contains_ignoring_case_def by blast
qed

section \<open>Properties of the admission queue\<close>

subsection \<open>The consistency of reachable states\<close>

lemma inv_idle: "governor_inv M idle"
  by (simp add: governor_inv_def idle_def)

lemma inv_submit:
  assumes "governor_inv M g"
  shows "governor_inv M (submit M g)"
  using assms
  by (auto simp: governor_inv_def submit_def admit_def Let_def)

lemma length_remove1_Suc: "t \<in> set xs \<Longrightarrow> length xs = Suc (length (remove1 t xs))"
  by (induction xs) auto

lemma inv_complete:
  assumes "governor_inv M g" and "t \<in> set (running g)"
  shows "governor_inv M (complete t out g)"
proof -
  obtain n where n: "length (remove1 t (running g)) = n" "length (running g) = Suc n"
    using length_remove1_Suc[OF assms(2)] by simp
  show ?thesis
  proof (cases "pending g")
    case Nil
    with assms(1) n show ?thesis
      by (auto simp: governor_inv_def complete_def Let_def)
  next
    case (Cons h rest)
    with assms(1) n show ?thesis
      by (auto simp: governor_inv_def complete_def admit_def Let_def)
  qed
qed

lemma inv_step:
  assumes "governor_inv M g" and "step M ev g = Some g'"
  shows "governor_inv M g'"
  using assms by (cases ev) (auto simp: inv_submit inv_complete split: if_splits)

lemma inv_run:
  assumes "governor_inv M g" and "run M evs g = Some g'"
  shows "governor_inv M g'"
  using assms
proof (induction evs arbitrary: g)
  case Nil
  then show ?case by simp
next
  case (Cons ev evs)
  then show ?case
    by (auto split: option.splits dest: inv_step)
qed

subsection \<open>Runs, admission order and outcomes\<close>

lemma run_append:
  "run M (xs @ ys) g = (case run M xs g of None \<Rightarrow> None | Some g' \<Rightarrow> run M ys g')"
  by (induction xs arbitrary: g) (auto split: option.splits)

lemma fifo_split:
  assumes "admitted g @ pending g = [0..<submitted g]"
  shows "admitted g = [0..<length (admitted g)]"
    and "pending g = [length (admitted g)..<submitted g]"
proof -
  have len: "length (admitted g) + length (pending g) = submitted g"
    using arg_cong[OF assms, of length] by simp
  have "admitted g = take (length (admitted g)) [0..<submitted g]"
    using arg_cong[OF assms, of "take (length (admitted g))"] by simp
  then show "admitted g = [0..<length (admitted g)]"
    using len by (simp add: take_upt)
  have "pending g = drop (length (admitted g)) [0..<submitted g]"
    using arg_cong[OF assms, of "drop (length (admitted g))"] by simp
  then show "pending g = [length (admitted g)..<submitted g]"
    by (simp add: drop_upt)
qed

lemmas governor_simps = idle_def submit_def complete_def admit_def Let_def

lemma relabel_submit: "submit M (relabel k out' g) = relabel k out' (submit M g)"
  by (simp add: relabel_def submit_def admit_def Let_def)

lemma relabel_complete:
  "complete t (if t = k then out' else out) (relabel k out' g) = relabel k out' (complete t out g)"
  by (simp add: relabel_def complete_def admit_def Let_def split: list.splits)

lemma relabel_step:
  "step M (with_outcome k out' ev) (relabel k out' g) = map_option (relabel k out') (step M ev g)"
proof (cases ev)
  case Submit
  then show ?thesis by (simp add: relabel_submit)
next
  case (Complete t out)
  have "running (relabel k out' g) = running g" by (simp add: relabel_def)
  with Complete show ?thesis by (simp add: relabel_complete)
qed

lemma relabel_run:
  "run M (map (with_outcome k out') evs) (relabel k out' g) = map_option (relabel k out') (run M evs g)"
proof (induction evs arbitrary: g)
  case Nil
  then show ?case by simp
next
  case (Cons ev evs)
  show ?case
  proof (cases "step M ev g")
    case None
    then show ?thesis by (simp add: relabel_step)
  next
    case (Some g1)
    then show ?thesis by (simp add: relabel_step Cons.IH)
  qed
qed

lemma filter_relabelled:
  "filter (\<lambda>(t, out). t \<noteq> k) (map (\<lambda>(t, out). (t, if t = k then out' else out)) xs) =
   filter (\<lambda>(t, out). t \<noteq> k) xs"
  by (induction xs) auto

lemma map_fst_relabelled:
  "map fst (map (\<lambda>(t, out). (t, if t = k then out' else out)) xs) = map fst xs"
  by (induction xs) auto

lemma relabel_sel:
  "admitted (relabel k out' g) = admitted g"
  "pending (relabel k out' g) = pending g"
  "running (relabel k out' g) = running g"
  "activeCount (relabel k out' g) = activeCount g"
  "submitted (relabel k out' g) = submitted g"
  "settled (relabel k out' g) = map (\<lambda>(t, out). (t, if t = k then out' else out)) (settled g)"
  by (simp_all add: relabel_def)

section \<open>The claims about the retry wrapper\<close>

text \<open>
  Claim C1. When every invocation of the task body fails with a transient error and the
  attempt budget is at least 1, \<open>withRetry\<close> invokes the body exactly \<open>retries\<close>
  times and throws the very value that the last invocation rejected with; the only events
  besides the invocations and the backoffs between them are the final error log.
\<close>

theorem withRetry_exhausted_throws_last:
  assumes "1 \<le> retries" and "\<forall>k<nat retries. transient_failure (outcome fn k s)"
  shows "withRetry fn (Some retries) (Some delay) s =
           (Inl (Thrown (projl (outcome fn (nat retries - 1) s))),
            after_calls fn (nat retries) s,
            backoff retries delay 0 (nat retries - 1) @ [Invoke, LogError])
         \<and> count_list (snd (snd (withRetry fn (Some retries) (Some delay) s))) Invoke = nat retries"
proof -
  define n where "n = nat retries - 1"
  have n: "int n = retries - 1" "nat retries = Suc n"
    using assms(1) by (simp_all add: n_def)
  have "transient_failure (outcome fn n s)"
    using assms(2) n by simp
  then obtain e str where e: "outcome fn n s = Inl e" "toString e = Some str" "isRetriable str"
    by (elim transient_failureE)
  have fn: "fn (after_calls fn n s) = (Inl e, after_calls fn (Suc n) s)"
    using e(1) by (rule fn_at)
  have "withRetry fn (Some retries) (Some delay) s =
        withRetry_loop fn retries delay n (if n = 0 then Undefined else projl (outcome fn (n - 1) s))
          (after_calls fn n s) (backoff retries delay 0 n)"
    using assms(2) n by (intro withRetry_reach) simp_all
  also have "\<dots> = (Inl (Thrown e), after_calls fn (Suc n) s, backoff retries delay 0 n @ [Invoke, LogError])"
    using n(1) fn e(2,3) by (rule loop_last_transient)
  finally have run: "withRetry fn (Some retries) (Some delay) s =
      (Inl (Thrown e), after_calls fn (Suc n) s, backoff retries delay 0 n @ [Invoke, LogError])" .
  show ?thesis
    unfolding run using e(1) by (simp add: n(2) count_backoff)
qed

theorem withRetry_exhausted_throws_last_witness:
  "withRetry always_503 (Some 3) (Some 1000) 0 =
     (Inl (Thrown (ErrorObj 2 ''ApiError'' ''503 Service Unavailable'')), 3,
      [Invoke, Warn 1000 1 3, Sleep 1000, Invoke, Warn 2000 2 3, Sleep 2000, Invoke, LogError])"
  using withRetry_exhausted_throws_last[of 3 always_503 0 1000]
  by (simp add: always_503_def eval_simps)

text \<open>
  Claim C4. When attempt \<open>i\<close> is reached (all earlier attempts failed transiently) and
  fails with a value whose rendered text has none of the triggers, \<open>withRetry\<close> throws
  that value unchanged right after that invocation: the trace ends with it, so there is no
  sleep and no further invocation, and the body has run \<open>i + 1\<close> times (once, for
  \<open>i = 0\<close>).
\<close>

theorem withRetry_terminal_rethrown_at_once:
  assumes "\<forall>j<i. transient_failure (outcome fn j s)" and "int i < retries"
    and "outcome fn i s = Inl e" and "toString e = Some str" and "\<not> isRetriable str"
  shows "withRetry fn (Some retries) (Some delay) s =
           (Inl (Thrown e), after_calls fn (Suc i) s, backoff retries delay 0 i @ [Invoke])
         \<and> count_list (snd (snd (withRetry fn (Some retries) (Some delay) s))) Invoke = Suc i"
proof -
  have fn: "fn (after_calls fn i s) = (Inl e, after_calls fn (Suc i) s)"
    using assms(3) by (rule fn_at)
  have "withRetry fn (Some retries) (Some delay) s =
        withRetry_loop fn retries delay i (if i = 0 then Undefined else projl (outcome fn (i - 1) s))
          (after_calls fn i s) (backoff retries delay 0 i)"
    using assms(1,2) by (rule withRetry_reach)
  also have "\<dots> = (Inl (Thrown e), after_calls fn (Suc i) s, backoff retries delay 0 i @ [Invoke])"
    using assms(2) fn assms(4,5) by (rule loop_terminal)
  finally show ?thesis
    by (simp add: count_backoff)
qed

theorem withRetry_terminal_rethrown_at_once_witness:
  "withRetry invalid_key (Some 5) (Some 1000) 0 =
     (Inl (Thrown (ErrorObj 0 ''Error'' ''invalid api key'')), 1, [Invoke])"
  using withRetry_terminal_rethrown_at_once[of 0 invalid_key 0 5 "ErrorObj 0 ''Error'' ''invalid api key''" "''Error: invalid api key''" 1000]
  by (simp add: invalid_key_def eval_simps)

text \<open>
  Claim C7. An omitted \<open>retries\<close> is 5 and an omitted \<open>delay\<close> is 1000; and when
  attempt \<open>i\<close> is reached and resolves with \<open>v\<close>, \<open>withRetry\<close> returns \<open>v\<close>
  with that invocation as the last event: no further invocation, no further sleep.
\<close>

theorem withRetry_defaults_and_success:
  "withRetry fn None None s = withRetry fn (Some 5) (Some 1000) s
   \<and> withRetry fn None (Some delay) s = withRetry fn (Some 5) (Some delay) s
   \<and> withRetry fn (Some retries) None s = withRetry fn (Some retries) (Some 1000) s
   \<and> ((\<forall>j<i. transient_failure (outcome fn j s)) \<and> int i < retries \<and> outcome fn i s = Inr v \<longrightarrow>
        withRetry fn (Some retries) (Some delay) s =
          (Inr v, after_calls fn (Suc i) s, backoff retries delay 0 i @ [Invoke]))"
proof -
  have "withRetry fn (Some retries) (Some delay) s =
          (Inr v, after_calls fn (Suc i) s, backoff retries delay 0 i @ [Invoke])"
    if prev: "\<forall>j<i. transient_failure (outcome fn j s)" and i: "int i < retries"
      and v: "outcome fn i s = Inr v"
  proof -
    have fn: "fn (after_calls fn i s) = (Inr v, after_calls fn (Suc i) s)"
      using v by (rule fn_at)
    have "withRetry fn (Some retries) (Some delay) s =
          withRetry_loop fn retries delay i (if i = 0 then Undefined else projl (outcome fn (i - 1) s))
            (after_calls fn i s) (backoff retries delay 0 i)"
      using prev i by (rule withRetry_reach)
    also have "\<dots> = (Inr v, after_calls fn (Suc i) s, backoff retries delay 0 i @ [Invoke])"
      using i fn by (rule loop_success)
    finally show ?thesis .
  qed
  then show ?thesis
    by (simp add: withRetry_def)
qed

theorem withRetry_defaults_and_success_witness:
  "withRetry flaky None None 0 =
     (Inr ''diary text'', 3, [Invoke, Warn 1000 1 5, Sleep 1000, Invoke, Warn 2000 2 5, Sleep 2000, Invoke])"
  using withRetry_defaults_and_success[of flaky 0 1000 5 2 "''diary text''"]
  by (simp add: flaky_def eval_simps)

text \<open>
  Claim C10. With \<open>retries \<le> 0\<close> the loop body never runs: the task body is not
  invoked (the world is unchanged and the trace holds only the error log) and the value
  thrown is the uninitialised \<open>lastError\<close>, that is \<open>undefined\<close>.
\<close>

theorem withRetry_no_attempts_throws_undefined:
  assumes "retries \<le> 0"
  shows "withRetry fn (Some retries) delay s = (Inl (Thrown Undefined), s, [LogError])"
  using assms by (simp add: withRetry_def loop_exhausted)

theorem withRetry_no_attempts_throws_undefined_witness:
  "withRetry always_503 (Some 0) None 0 = (Inl (Thrown Undefined), 0, [LogError])
   \<and> withRetry always_503 (Some (- 2)) (Some 1000) 0 = (Inl (Thrown Undefined), 0, [LogError])"
  using withRetry_no_attempts_throws_undefined[of 0 always_503 None 0] withRetry_no_attempts_throws_undefined[of "- 2" always_503 "Some 1000" 0]
  by simp

text \<open>
  Claim C5. Backoff schedule. In every run the sleeps are, in order, \<open>delay * 2 ^ 0\<close>,
  \<open>delay * 2 ^ 1\<close>, ... with nothing added, one between each two consecutive
  invocations and none after the last one. When attempts \<open>0\<close> to \<open>i\<close> fail
  transiently and \<open>i < retries - 1\<close>, the sleep that follows attempt \<open>i\<close> is
  \<open>delay * 2 ^ i\<close> and the next event is the invocation of attempt \<open>i + 1\<close>. When
  all \<open>retries\<close> attempts fail transiently, the last invocation is followed by the error
  log only, with no sleep. For \<open>delay = 1000\<close> the sleeps are 1000, 2000, 4000.
\<close>

theorem withRetry_backoff_schedule:
  "sleeps (snd (snd (withRetry fn (Some retries) (Some delay) s))) =
     map (\<lambda>j. delay * 2 ^ j)
       [0..<count_list (snd (snd (withRetry fn (Some retries) (Some delay) s))) Invoke - 1]
   \<and> ((\<forall>j\<le>i. transient_failure (outcome fn j s)) \<and> int i < retries - 1 \<longrightarrow>
        (\<exists>rest. snd (snd (withRetry fn (Some retries) (Some delay) s)) =
           backoff retries delay 0 i
           @ [Invoke, Warn (delay * 2 ^ i) (int i + 1) retries, Sleep (delay * 2 ^ i), Invoke] @ rest))
   \<and> (1 \<le> retries \<and> (\<forall>j<nat retries. transient_failure (outcome fn j s)) \<longrightarrow>
        snd (snd (withRetry fn (Some retries) (Some delay) s)) =
          backoff retries delay 0 (nat retries - 1) @ [Invoke, LogError])"
proof (intro conjI impI)
  show "sleeps (snd (snd (withRetry fn (Some retries) (Some delay) s))) =
     map (\<lambda>j. delay * 2 ^ j)
       [0..<count_list (snd (snd (withRetry fn (Some retries) (Some delay) s))) Invoke - 1]"
    unfolding withRetry_Some by (rule loop_sleeps) simp_all
next
  assume a: "(\<forall>j\<le>i. transient_failure (outcome fn j s)) \<and> int i < retries - 1"
  then have "\<forall>j<Suc i. transient_failure (outcome fn j s)" and "int (Suc i) < retries"
    by (simp_all add: less_Suc_eq_le)
  then have run: "withRetry fn (Some retries) (Some delay) s =
      withRetry_loop fn retries delay (Suc i) (projl (outcome fn i s))
        (after_calls fn (Suc i) s) (backoff retries delay 0 (Suc i))"
    using withRetry_reach[of "Suc i" fn s retries delay] by simp
  have split: "backoff retries delay 0 (Suc i) =
      backoff retries delay 0 i @ [Invoke, Warn (delay * 2 ^ i) (int i + 1) retries, Sleep (delay * 2 ^ i)]"
    by (simp add: backoff_def attempt_events_def)
  obtain rest where "snd (snd (withRetry fn (Some retries) (Some delay) s)) =
      backoff retries delay 0 (Suc i) @ Invoke # rest"
    unfolding run
    using loop_starts_with_invocation[OF \<open>int (Suc i) < retries\<close>, of fn delay "projl (outcome fn i s)"
        "after_calls fn (Suc i) s" "backoff retries delay 0 (Suc i)"] by (elim exE)
  then show "\<exists>rest. snd (snd (withRetry fn (Some retries) (Some delay) s)) =
           backoff retries delay 0 i
           @ [Invoke, Warn (delay * 2 ^ i) (int i + 1) retries, Sleep (delay * 2 ^ i), Invoke] @ rest"
    by (simp add: split)
next
  assume "1 \<le> retries \<and> (\<forall>j<nat retries. transient_failure (outcome fn j s))"
  then have n: "int (nat retries - 1) = retries - 1"
    and tf: "\<forall>j<nat retries - 1. transient_failure (outcome fn j s)"
    and last: "transient_failure (outcome fn (nat retries - 1) s)"
    by auto
  from last obtain e str where e: "outcome fn (nat retries - 1) s = Inl e" "toString e = Some str" "isRetriable str"
    by (elim transient_failureE)
  have "withRetry fn (Some retries) (Some delay) s =
        withRetry_loop fn retries delay (nat retries - 1)
          (if nat retries - 1 = 0 then Undefined else projl (outcome fn (nat retries - 1 - 1) s))
          (after_calls fn (nat retries - 1) s) (backoff retries delay 0 (nat retries - 1))"
    using tf n by (intro withRetry_reach) simp_all
  also have "\<dots> = (Inl (Thrown e), after_calls fn (Suc (nat retries - 1)) s,
        backoff retries delay 0 (nat retries - 1) @ [Invoke, LogError])"
    using n fn_at[OF e(1)] e(2,3) by (rule loop_last_transient)
  finally show "snd (snd (withRetry fn (Some retries) (Some delay) s)) =
          backoff retries delay 0 (nat retries - 1) @ [Invoke, LogError]"
    by simp
qed

theorem withRetry_backoff_schedule_witness:
  "sleeps (snd (snd (withRetry always_503 (Some 4) (Some 1000) 0))) = [1000, 2000, 4000]
   \<and> snd (snd (withRetry always_503 (Some 4) (Some 1000) 0)) =
       [Invoke, Warn 1000 1 4, Sleep 1000, Invoke, Warn 2000 2 4, Sleep 2000,
        Invoke, Warn 4000 3 4, Sleep 4000, Invoke, LogError]
   \<and> (\<exists>rest. snd (snd (withRetry always_503 (Some 4) (Some 1000) 0)) =
         [Invoke, Warn 1000 1 4, Sleep 1000, Invoke, Warn 2000 2 4, Sleep 2000, Invoke] @ rest)"
  using withRetry_backoff_schedule[of always_503 4 1000 0 1]
  by (simp add: always_503_def eval_simps)

text \<open>
  Claim C3. The test of \<open>withRetry\<close> on a caught value depends on its rendered text
  alone: the text is taken for retriable exactly when it contains, up to the case of
  letters, one of \<open>503\<close>, \<open>unavailable\<close>, \<open>overloaded\<close>. "Up to the case of
  letters" is \<open>same_up_to_case\<close>, a comparison of character codes that does not use the
  lower-casing of the code. A caught value with such a text is never rethrown at once,
  whatever produced it, and one whose text has none of the three is rethrown at once.
\<close>

theorem isRetriable_iff_trigger_in_text:
  "(isRetriable str \<longleftrightarrow>
      contains_ignoring_case str ''503'' \<or> contains_ignoring_case str ''unavailable''
      \<or> contains_ignoring_case str ''overloaded'')
   \<and> (int i < retries \<and> fn s = (Inl e, s') \<and> toString e = Some str \<longrightarrow>
        (withRetry_loop fn retries delay i lastError s tr = (Inl (Thrown e), s', tr @ [Invoke])
           \<longleftrightarrow> \<not> isRetriable str))"
proof (intro conjI impI)
  show "isRetriable str \<longleftrightarrow>
      contains_ignoring_case str ''503'' \<or> contains_ignoring_case str ''unavailable''
      \<or> contains_ignoring_case str ''overloaded''"
    by (simp add: isRetriable_def includes_lower_iff[OF triggers_lower_case(1)]
        includes_lower_iff[OF triggers_lower_case(2)]
        includes_lower_iff[OF triggers_lower_case(3)])
next
  assume a: "int i < retries \<and> fn s = (Inl e, s') \<and> toString e = Some str"
  show "withRetry_loop fn retries delay i lastError s tr = (Inl (Thrown e), s', tr @ [Invoke])
           \<longleftrightarrow> \<not> isRetriable str"
  proof (cases "isRetriable str")
    case False
    have "withRetry_loop fn retries delay i lastError s tr = (Inl (Thrown e), s', tr @ [Invoke])"
      using a False by (intro loop_terminal[where str = str]) simp_all
    with False show ?thesis by simp
  next
    case True
    have "snd (snd (withRetry_loop fn retries delay i lastError s tr)) \<noteq> tr @ [Invoke]"
    proof (cases "int i < retries - 1")
      case False
      with a have "int i = retries - 1" by simp
      then have "withRetry_loop fn retries delay i lastError s tr =
          (Inl (Thrown e), s', tr @ [Invoke, LogError])"
        using a True by (intro loop_last_transient[where str = str]) simp_all
      then show ?thesis by simp
    next
      case less: True
      have step: "withRetry_loop fn retries delay i lastError s tr =
          withRetry_loop fn retries delay (Suc i) e s' (tr @ attempt_events retries delay i)"
        using less a True by (intro loop_backoff[where str = str]) simp_all
      obtain rest where "snd (snd (withRetry_loop fn retries delay (Suc i) e s'
          (tr @ attempt_events retries delay i))) = (tr @ attempt_events retries delay i) @ rest"
        using loop_trace_extends[of fn retries delay "Suc i" e s' "tr @ attempt_events retries delay i"]
        by (elim exE)
      then have "snd (snd (withRetry_loop fn retries delay i lastError s tr)) =
          tr @ attempt_events retries delay i @ rest"
        by (simp only: step append_assoc)
      then show ?thesis
        by (simp add: attempt_events_def)
    qed
    with True show ?thesis by auto
  qed
qed

text \<open>
  The theorem at two texts. \<open>Service UNAVAILABLE\<close> has no status code and matches a
  trigger only through the case of its letters: it is retriable, so it contains a trigger
  and the rejection is not rethrown at once. \<open>invalid api key\<close> is not retriable: it
  contains none of the three and the rejection is rethrown at once.
\<close>

theorem isRetriable_iff_trigger_in_text_witness:
  "isRetriable ''ApiError: Service UNAVAILABLE''
   \<and> (contains_ignoring_case ''ApiError: Service UNAVAILABLE'' ''503''
      \<or> contains_ignoring_case ''ApiError: Service UNAVAILABLE'' ''unavailable''
      \<or> contains_ignoring_case ''ApiError: Service UNAVAILABLE'' ''overloaded'')
   \<and> withRetry_loop service_down 5 1000 0 Undefined 0 []
       \<noteq> (Inl (Thrown (ErrorObj 0 ''ApiError'' ''Service UNAVAILABLE'')), 1, [Invoke])
   \<and> \<not> isRetriable ''Error: invalid api key''
   \<and> \<not> contains_ignoring_case ''Error: invalid api key'' ''503''
   \<and> \<not> contains_ignoring_case ''Error: invalid api key'' ''unavailable''
   \<and> \<not> contains_ignoring_case ''Error: invalid api key'' ''overloaded''
   \<and> withRetry_loop invalid_key 5 1000 0 Undefined 0 []
       = (Inl (Thrown (ErrorObj 0 ''Error'' ''invalid api key'')), 1, [Invoke])"
proof -
  have down: "isRetriable ''ApiError: Service UNAVAILABLE''"
    by (simp add: isRetriable_def toLowerCase_def toLowerCase_char_def)
  have key: "\<not> isRetriable ''Error: invalid api key''"
    by (simp add: isRetriable_def toLowerCase_def toLowerCase_char_def)
  have rejects_down: "service_down 0 = (Inl (ErrorObj 0 ''ApiError'' ''Service UNAVAILABLE''), 1)"
    "toString (ErrorObj 0 ''ApiError'' ''Service UNAVAILABLE'') = Some ''ApiError: Service UNAVAILABLE''"
    by (simp_all add: service_down_def)
  have rejects_key: "invalid_key 0 = (Inl (ErrorObj 0 ''Error'' ''invalid api key''), 1)"
    "toString (ErrorObj 0 ''Error'' ''invalid api key'') = Some ''Error: invalid api key''"
    by (simp_all add: invalid_key_def)
  note at_down = isRetriable_iff_trigger_in_text[where str = "''ApiError: Service UNAVAILABLE''"
      and i = 0 and retries = 5 and fn = service_down and s = "0::nat"
      and e = "ErrorObj 0 ''ApiError'' ''Service UNAVAILABLE''"
      and s' = "1::nat" and delay = 1000 and lastError = Undefined and tr = "[]"]
  note at_key = isRetriable_iff_trigger_in_text[where str = "''Error: invalid api key''"
      and i = 0 and retries = 5 and fn = invalid_key and s = "0::nat"
      and e = "ErrorObj 0 ''Error'' ''invalid api key''"
      and s' = "1::nat" and delay = 1000 and lastError = Undefined and tr = "[]"]
  from at_down down rejects_down
  have 1: "(contains_ignoring_case ''ApiError: Service UNAVAILABLE'' ''503''
      \<or> contains_ignoring_case ''ApiError: Service UNAVAILABLE'' ''unavailable''
      \<or> contains_ignoring_case ''ApiError: Service UNAVAILABLE'' ''overloaded'')
    \<and> withRetry_loop service_down 5 1000 0 Undefined 0 []
       \<noteq> (Inl (Thrown (ErrorObj 0 ''ApiError'' ''Service UNAVAILABLE'')), 1, [Invoke])"
    by simp
  from at_key key rejects_key
  have 2: "\<not> contains_ignoring_case ''Error: invalid api key'' ''503''
    \<and> \<not> contains_ignoring_case ''Error: invalid api key'' ''unavailable''
    \<and> \<not> contains_ignoring_case ''Error: invalid api key'' ''overloaded''
    \<and> withRetry_loop invalid_key 5 1000 0 Undefined 0 []
       = (Inl (Thrown (ErrorObj 0 ''Error'' ''invalid api key'')), 1, [Invoke])"
    by simp
  from down key 1 2 show ?thesis by blast
qed

section \<open>The claims about the admission queue\<close>

text \<open>
  Claim C2. After any run of the admission queue with \<open>MaxConcurrent \<ge> 0\<close>, the
  active-slot counter is between 0 and \<open>MaxConcurrent\<close>; it is the number of tasks
  running at that moment, and it is the number of admissions minus the number of
  completions (one up per admission, one down per completion); and if the pending list is
  not empty, some submitted task has not been admitted. Every moment of a run is the end of
  a shorter run, so this holds at every instant.
\<close>

theorem active_slots_within_bound:
  assumes "0 \<le> MaxConcurrent" and "run MaxConcurrent evs idle = Some g"
  shows "0 \<le> activeCount g \<and> activeCount g \<le> MaxConcurrent
         \<and> activeCount g = int (length (running g))
         \<and> activeCount g = int (length (admitted g)) - int (length (settled g))
         \<and> (pending g \<noteq> [] \<longrightarrow> (\<exists>t<submitted g. t \<notin> set (admitted g)))"
proof -
  have inv: "governor_inv MaxConcurrent g"
    using inv_idle assms(2) by (rule inv_run)
  then have fifo: "admitted g @ pending g = [0..<submitted g]"
    by (simp add: governor_inv_def)
  have "\<exists>t<submitted g. t \<notin> set (admitted g)" if "pending g \<noteq> []"
  proof -
    from that have "length (admitted g) < submitted g"
      using arg_cong[OF fifo, of length] by (cases "pending g") simp_all
    moreover have "length (admitted g) \<notin> set (admitted g)"
      using fifo_split(1)[OF fifo] by (metis atLeastLessThan_iff less_irrefl set_upt)
    ultimately show ?thesis by blast
  qed
  with inv assms(1) show ?thesis
    by (simp add: governor_inv_def)
qed

theorem active_slots_within_bound_witness:
  "run 2 [Submit, Submit, Submit, Submit, Complete 1 (Inr ''sketch'')] idle =
     Some \<lparr>pending = [3], activeCount = 2, running = [0, 2], admitted = [0, 1, 2], submitted = 4,
           settled = [(1, Inr ''sketch'' :: jsval + string)]\<rparr>
   \<and> (\<exists>t<4. t \<notin> set [0, Suc 0, 2])"
  using active_slots_within_bound[of 2 "[Submit, Submit, Submit, Submit, Complete 1 (Inr ''sketch'')]"
      "\<lparr>pending = [3], activeCount = 2, running = [0, 2], admitted = [0, 1, 2], submitted = 4,
        settled = [(1, Inr ''sketch'' :: jsval + string)]\<rparr>"]
  by (simp add: governor_simps)

text \<open>
  Claim C6. After any run, the tasks admitted so far are the first submissions, in
  submission order, and the pending list holds the later submissions, oldest first: a task
  submitted earlier is never admitted later than one submitted after it (if \<open>a\<close> was
  submitted before \<open>b\<close> and \<open>b\<close> has been admitted, then \<open>a\<close> was admission number
  \<open>a\<close> and \<open>b\<close> admission number \<open>b\<close>). When a running
  task then finishes, with whatever outcome, the counter goes down by one and, if the
  pending list is not empty, its head is admitted (which takes the slot again) and leaves
  the list.
\<close>

theorem admission_in_submission_order:
  assumes "run MaxConcurrent evs idle = Some g"
  shows "admitted g = [0..<length (admitted g)]
         \<and> pending g = [length (admitted g)..<submitted g]
         \<and> (a < b \<and> b \<in> set (admitted g) \<longrightarrow>
               a < length (admitted g) \<and> b < length (admitted g)
               \<and> admitted g ! a = a \<and> admitted g ! b = b)
         \<and> (run MaxConcurrent (evs @ [Complete t out]) idle = Some g' \<longrightarrow>
               (case pending g of
                  [] \<Rightarrow> activeCount g' = activeCount g - 1 \<and> admitted g' = admitted g \<and> pending g' = []
                | h # rest \<Rightarrow> activeCount g' = activeCount g - 1 + 1 \<and> admitted g' = admitted g @ [h]
                    \<and> pending g' = rest))"
proof -
  have "governor_inv MaxConcurrent g"
    using inv_idle assms by (rule inv_run)
  then have fifo: "admitted g @ pending g = [0..<submitted g]"
    by (simp add: governor_inv_def)
  have "case pending g of
          [] \<Rightarrow> activeCount g' = activeCount g - 1 \<and> admitted g' = admitted g \<and> pending g' = []
        | h # rest \<Rightarrow> activeCount g' = activeCount g - 1 + 1 \<and> admitted g' = admitted g @ [h]
            \<and> pending g' = rest"
    if "run MaxConcurrent (evs @ [Complete t out]) idle = Some g'"
  proof -
    from that assms have "g' = complete t out g"
      by (simp add: run_append split: if_splits)
    then show ?thesis
      by (simp add: complete_def admit_def Let_def split: list.splits)
  qed
  moreover have "a < length (admitted g) \<and> b < length (admitted g)
      \<and> admitted g ! a = a \<and> admitted g ! b = b"
    if "a < b \<and> b \<in> set (admitted g)"
  proof -
    have "b \<in> set [0..<length (admitted g)]"
      using that fifo_split(1)[OF fifo] by simp
    then have "b < length (admitted g)" by simp
    moreover from this that have "a < length (admitted g)" by simp
    moreover have "admitted g ! i = i" if "i < length (admitted g)" for i
      using nth_upt[of 0 i "length (admitted g)"] that fifo_split(1)[OF fifo] by simp
    ultimately show ?thesis by simp
  qed
  ultimately show ?thesis
    using fifo_split[OF fifo] by blast
qed

theorem admission_in_submission_order_witness:
  "run 2 [Submit, Submit, Submit, Submit] idle =
     Some \<lparr>pending = [2, 3], activeCount = 2, running = [0, 1], admitted = [0, 1], submitted = 4,
           settled = ([] :: (nat \<times> (jsval + string)) list)\<rparr>
   \<and> run 2 ([Submit, Submit, Submit, Submit] @ [Complete 0 (Inl (Str ''quota''))]) idle =
     Some \<lparr>pending = [3], activeCount = 2, running = [1, 2], admitted = [0, 1] @ [2], submitted = 4,
           settled = [(0, Inl (Str ''quota'') :: jsval + string)]\<rparr>"
proof -
  let ?g = "\<lparr>pending = [2, 3], activeCount = 2, running = [0, 1], admitted = [0, 1], submitted = 4,
           settled = ([] :: (nat \<times> (jsval + string)) list)\<rparr>"
  let ?g' = "\<lparr>pending = [3], activeCount = 2, running = [1, 2], admitted = [0, 1] @ [2], submitted = 4,
           settled = [(0, Inl (Str ''quota'') :: jsval + string)]\<rparr>"
  have before: "run 2 [Submit, Submit, Submit, Submit] idle = Some ?g"
    by (simp add: governor_simps)
  have after: "run 2 ([Submit, Submit, Submit, Submit] @ [Complete 0 (Inl (Str ''quota''))]) idle = Some ?g'"
    by (simp add: governor_simps)
  have "admitted ?g' = admitted ?g @ [2] \<and> pending ?g' = [3]"
    using admission_in_submission_order[OF before, of 0 1 0 "Inl (Str ''quota'')" ?g'] after by simp
  with before after show ?thesis by simp
qed

text \<open>
  Claim C8. Replace, in any run, the outcome of one task \<open>k\<close> by any other (failure for
  success, or the reverse). The result is again a run, with the same admissions in the same
  order, the same pending list, the same running tasks and counter, the same tasks settled
  in the same order, and the same outcome for every task other than \<open>k\<close>.
\<close>

theorem outcome_of_one_task_leaves_siblings:
  assumes "run MaxConcurrent evs idle = Some g"
  shows "\<exists>g'. run MaxConcurrent (map (with_outcome k out') evs) idle = Some g'
           \<and> admitted g' = admitted g \<and> pending g' = pending g \<and> running g' = running g
           \<and> activeCount g' = activeCount g \<and> submitted g' = submitted g
           \<and> map fst (settled g') = map fst (settled g)
           \<and> filter (\<lambda>(t, out). t \<noteq> k) (settled g') = filter (\<lambda>(t, out). t \<noteq> k) (settled g)"
proof -
  have "relabel k out' (idle :: 'a governor) = idle"
    by (simp add: relabel_def idle_def)
  then have "run MaxConcurrent (map (with_outcome k out') evs) idle = Some (relabel k out' g)"
    using relabel_run[of MaxConcurrent k out' evs idle] assms by simp
  then show ?thesis
    by (intro exI[of _ "relabel k out' g"])
      (simp only: relabel_sel filter_relabelled map_fst_relabelled simp_thms)
qed


theorem outcome_of_one_task_leaves_siblings_witness:
  "run 2 [Submit, Submit, Submit, Complete 0 (Inr ''diary''), Complete 2 (Inr ''sketch'')] idle =
     Some \<lparr>pending = [], activeCount = 1, running = [1], admitted = [0, 1, 2], submitted = 3,
           settled = [(0, Inr ''diary''), (2, Inr ''sketch'' :: jsval + string)]\<rparr>
   \<and> run 2 [Submit, Submit, Submit, Complete 0 (Inl (Str ''quota'')), Complete 2 (Inr ''sketch'')] idle =
     Some \<lparr>pending = [], activeCount = 1, running = [1], admitted = [0, 1, 2], submitted = 3,
           settled = [(0, Inl (Str ''quota'')), (2, Inr ''sketch'' :: jsval + string)]\<rparr>"
proof -
  let ?evs = "[Submit, Submit, Submit, Complete 0 (Inr ''diary''), Complete 2 (Inr ''sketch'' :: jsval + string)]"
  let ?g = "\<lparr>pending = [], activeCount = 1, running = [1], admitted = [0, 1, 2], submitted = 3,
           settled = [(0, Inr ''diary''), (2, Inr ''sketch'' :: jsval + string)]\<rparr>"
  have succeeds: "run 2 ?evs idle = Some ?g"
    by (simp add: governor_simps)
  obtain g' where g': "run 2 (map (with_outcome 0 (Inl (Str ''quota''))) ?evs) idle = Some g'"
    "admitted g' = admitted ?g" "pending g' = pending ?g" "running g' = running ?g"
    "activeCount g' = activeCount ?g" "submitted g' = submitted ?g"
    "filter (\<lambda>(t, out). t \<noteq> 0) (settled g') = filter (\<lambda>(t, out). t \<noteq> 0) (settled ?g)"
    using outcome_of_one_task_leaves_siblings[OF succeeds, of 0 "Inl (Str ''quota'')"] by blast
  have fails: "run 2 (map (with_outcome 0 (Inl (Str ''quota''))) ?evs) idle =
      Some \<lparr>pending = [], activeCount = 1, running = [1], admitted = [0, 1, 2], submitted = 3,
           settled = [(0, Inl (Str ''quota'')), (2, Inr ''sketch'' :: jsval + string)]\<rparr>"
    by (simp add: governor_simps)
  with g'(1) succeeds show ?thesis by simp
qed


section \<open>The claim about the exported operations\<close>

text \<open>
  Claim C9. Each of the five exported operations, \<open>searchPlaces\<close>,
  \<open>generateDiaryEntry\<close>, \<open>createImagePrompt\<close>, \<open>generateSketch\<close> and
  \<open>summarizeDay\<close>, does one thing: it hands \<open>enqueue\<close> a task, and that task is
  \<open>withRetry\<close> applied to the operation's body, with the default budget of 5 attempts
  and base delay of 1000 ms. Whatever \<open>enqueue\<close> is, the operation's result is what
  \<open>enqueue\<close> returns for that task, so the body runs only under the queue and under the
  retry policy.
\<close>

theorem operations_enqueue_withRetry:
  "searchPlaces enqueue1 generateContent1 search_prompt places query =
     enqueue1 (withRetry (searchPlaces_body generateContent1 search_prompt places query)
                 (Some 5) (Some 1000))
   \<and> generateDiaryEntry enqueue2 generateContent2 prompt_with_place prompt_without_place
       transcription placeName =
     enqueue2 (withRetry (generateDiaryEntry_body generateContent2 prompt_with_place
                 prompt_without_place transcription placeName) (Some 5) (Some 1000))
   \<and> createImagePrompt enqueue3 generateContent3 image_prompt transcription' =
     enqueue3 (withRetry (createImagePrompt_body generateContent3 image_prompt transcription')
                 (Some 5) (Some 1000))
   \<and> generateSketch enqueue4 generateImages sketch_prompt =
     enqueue4 (withRetry (generateSketch_body generateImages sketch_prompt) (Some 5) (Some 1000))
   \<and> summarizeDay enqueue5 generateContent5 summary_prompt parse entries =
     enqueue5 (withRetry (summarizeDay_body generateContent5 summary_prompt parse entries)
                 (Some 5) (Some 1000))"
proof -
  have default: "withRetry fn None None = withRetry fn (Some 5) (Some 1000)"
    for fn :: "'s \<Rightarrow> (jsval + 'r) \<times> 's"
    by (rule ext) (simp add: withRetry_def)
  show ?thesis
    by (simp only: searchPlaces_def generateDiaryEntry_def createImagePrompt_def
        generateSketch_def summarizeDay_def default simp_thms)
qed

text \<open>
  The theorem at work: \<open>generateSketch\<close> against an overloaded image service, with an
  \<open>enqueue\<close> that runs the task at once. The service receives five requests, with the
  four backoff sleeps between them, and the caller gets the last rejection.
\<close>

theorem operations_enqueue_withRetry_witness:
  "generateSketch (\<lambda>task. task ready) overloaded_images ''a cat'' =
     (Inl (Thrown (ErrorObj 4 ''ApiError''
        ''got status: 503 UNAVAILABLE. The model is overloaded.'')),
      \<lparr>ai = Some ''key'', API_KEY = Some ''key'', allocated = 0, service = 5\<rparr>,
      [Invoke, Warn 1000 1 5, Sleep 1000, Invoke, Warn 2000 2 5, Sleep 2000,
       Invoke, Warn 4000 3 5, Sleep 4000, Invoke, Warn 8000 4 5, Sleep 8000, Invoke, LogError])"
proof -
  have "generateSketch (\<lambda>task. task ready) overloaded_images ''a cat'' =
      withRetry (generateSketch_body overloaded_images ''a cat'') (Some 5) (Some 1000) ready"
    by (rule operations_enqueue_withRetry
        [THEN conjunct2, THEN conjunct2, THEN conjunct2, THEN conjunct1])
  then show ?thesis
    by (simp add: withRetry_def withRetry_loop.simps generateSketch_body_def
      getAi_def await_call_def overloaded_images_def ready_def isRetriable_def toLowerCase_def
      toLowerCase_char_def)
qed

end
